theory Spec2Isabelle
  imports
    Main
    "HOL-Library.Word"
    "HOL-Library.Finite_Map"
    "HOL-Library.Char_ord"
    "HOL-Library.List_Lexorder"
begin

section \<open>The response cache of pokedexcli (package pokecache)\<close>

text \<open>
  The development embeds the package \<^verbatim>\<open>pokecache\<close>: the types \<^verbatim>\<open>Cache\<close> and
  \<^verbatim>\<open>CacheEntry\<close> and the methods \<^verbatim>\<open>NewCache\<close>, \<^verbatim>\<open>Add\<close>, \<^verbatim>\<open>Get\<close>,
  \<^verbatim>\<open>reapExpired\<close>, \<^verbatim>\<open>Stop\<close>, \<^verbatim>\<open>GetInterval\<close>, \<^verbatim>\<open>GetCacheMap\<close> and \<^verbatim>\<open>Len\<close>.

  Every method is modelled as one atomic step of a sequential program: the methods
  take the mutex \<^verbatim>\<open>mu\<close> around each access of the map, so the lock has no effect on the
  result of a single call and is left out. Each call of \<^verbatim>\<open>time.Now()\<close> is an input of
  the step, the argument \<open>now\<close>.

  The goroutine that \<^verbatim>\<open>NewCache\<close> starts runs \<^verbatim>\<open>reapLoop\<close> beside the callers. It is
  part of the state of the program, and it moves by steps of its own: it enters the
  loop, and it runs its \<^verbatim>\<open>select\<close>. A run of the program is a list of events, the
  calls of the methods and the steps of the goroutine and of its ticker in the order
  in which they take effect.
\<close>

subsection \<open>Time\<close>

text \<open>
  An instant is a number of nanoseconds on the clock that \<^verbatim>\<open>time.Now()\<close> reads. A
  \<^verbatim>\<open>time.Duration\<close> is an \<^verbatim>\<open>int64\<close> of nanoseconds, and \<^verbatim>\<open>Time.Sub\<close> saturates: it
  answers the largest (smallest) duration when the difference does not fit.
\<close>

type_synonym time = int
type_synonym duration = int

definition maxDuration :: duration where
  "maxDuration = 2 ^ 63 - 1"

definition minDuration :: duration where
  "minDuration = - (2 ^ 63)"

definition Sub :: "time \<Rightarrow> time \<Rightarrow> duration" where
  "Sub t u =
     (let d = t - u
      in if maxDuration < d then maxDuration
         else if d < minDuration then minDuration
         else d)"

subsection \<open>Byte slices, entries and the store of map objects\<close>

text \<open>
  A value of type \<^verbatim>\<open>[]byte\<close> is either the nil slice or a slice with contents; the two
  are different values even when the contents are empty (\<^verbatim>\<open>[]byte{} != nil\<close>). The
  contents are a value here: no operation of the package writes into a slice.
\<close>

type_synonym byte = "8 word"

datatype byte_slice = NilSlice | Bytes "byte list"

fun len :: "byte_slice \<Rightarrow> nat" where
  "len NilSlice = 0"
| "len (Bytes bs) = length bs"

record CacheEntry =
  CreatedAt :: time
  Val :: byte_slice

type_synonym gomap = "(string, CacheEntry) fmap"

text \<open>
  A Go map is a reference: \<^verbatim>\<open>make\<close> creates a new map object, and every copy of the
  map value names the same object. The store holds the map objects by address;
  \<open>fresh\<close> is the next address that \<^verbatim>\<open>make\<close> hands out.
\<close>

record heap =
  maps :: "nat \<Rightarrow> gomap"
  fresh :: nat

definition make_map :: "heap \<Rightarrow> nat \<times> heap" where
  "make_map h = (fresh h, h\<lparr>maps := (maps h)(fresh h := fmempty), fresh := Suc (fresh h)\<rparr>)"

text \<open>
  The struct \<^verbatim>\<open>Cache\<close>: the field \<open>cache\<close> is the address of the entry map,
  \<open>stopChan_closed\<close> is the state of the channel \<^verbatim>\<open>stopChan\<close>.
\<close>

record Cache =
  cache :: nat
  interval :: duration
  stopChan_closed :: bool

datatype panic = CloseOfClosedChannel | NonPositiveTickerInterval

text \<open>
  The goroutine of \<^verbatim>\<open>reapLoop\<close>: started by the \<^verbatim>\<open>go\<close> statement and not yet run, inside
  the loop at its \<^verbatim>\<open>select\<close>, or returned. The state of a program with one cache: the
  struct that the pointer \<^verbatim>\<open>c\<close> names, the store, the goroutine, and whether a tick
  waits in the channel \<^verbatim>\<open>ticker.C\<close>, which holds at most one.
\<close>

datatype goroutine = Spawned | InLoop | Returned

record program =
  this :: Cache
  store :: heap
  reaper :: goroutine
  ticker_C :: bool

subsection \<open>The methods\<close>

definition NewCache :: "duration \<Rightarrow> heap \<Rightarrow> program" where
  "NewCache iv h =
     (let (a, h') = make_map h
      in \<lparr>this = \<lparr>cache = a, interval = iv, stopChan_closed = False\<rparr>,
          store = h', reaper = Spawned, ticker_C = False\<rparr>)"

definition Add :: "Cache \<Rightarrow> string \<Rightarrow> byte_slice \<Rightarrow> time \<Rightarrow> heap \<Rightarrow> heap" where
  "Add c key val now h =
     (let ce = \<lparr>CreatedAt = now, Val = val\<rparr>
      in h\<lparr>maps := (maps h)(cache c := fmupd key ce (maps h (cache c)))\<rparr>)"

definition Get :: "Cache \<Rightarrow> string \<Rightarrow> heap \<Rightarrow> byte_slice \<times> bool" where
  "Get c key h =
     (case fmlookup (maps h (cache c)) key of
        None \<Rightarrow> (Bytes [], False)
      | Some entry \<Rightarrow>
          if Val entry = NilSlice then (Bytes [], True)
          else (Val entry, True))"

text \<open>
  A \<^verbatim>\<open>range\<close> over a map visits the keys in an order the language leaves open, and
  does not produce a key that was deleted before it was reached. \<open>range_keys\<close> is
  one such order; \<open>reap_range\<close> and \<open>copy_range\<close> are the loop bodies run over an
  order of visit.
\<close>

definition range_keys :: "gomap \<Rightarrow> string list" where
  "range_keys m = sorted_list_of_fset (fmdom m)"

fun reap_range :: "time \<Rightarrow> duration \<Rightarrow> string list \<Rightarrow> gomap \<Rightarrow> gomap" where
  "reap_range now iv [] m = m"
| "reap_range now iv (key # keys) m =
     (case fmlookup m key of
        None \<Rightarrow> reap_range now iv keys m
      | Some entry \<Rightarrow>
          if iv < Sub now (CreatedAt entry) then reap_range now iv keys (fmdrop key m)
          else reap_range now iv keys m)"

definition reapExpired :: "Cache \<Rightarrow> time \<Rightarrow> heap \<Rightarrow> heap" where
  "reapExpired c now h =
     h\<lparr>maps := (maps h)(cache c :=
         reap_range now (interval c) (range_keys (maps h (cache c))) (maps h (cache c)))\<rparr>"

text \<open>
  \<^verbatim>\<open>reapLoop\<close> up to its loop: \<^verbatim>\<open>time.NewTicker\<close> panics on an interval that is not
  positive, and a panic in a goroutine ends the program.
\<close>

definition reapLoop_enter :: "program \<Rightarrow> panic + program" where
  "reapLoop_enter p =
     (if reaper p \<noteq> Spawned then Inr p
      else if interval (this p) \<le> 0 then Inl NonPositiveTickerInterval
      else Inr (p\<lparr>reaper := InLoop\<rparr>))"

text \<open>
  The ticker sends a tick for as long as it runs, from \<^verbatim>\<open>NewTicker\<close> to the deferred
  \<^verbatim>\<open>ticker.Stop()\<close>; a tick that finds the channel full is dropped.
\<close>

definition ticker_fires :: "program \<Rightarrow> program" where
  "ticker_fires p = (if reaper p = InLoop then p\<lparr>ticker_C := True\<rparr> else p)"

text \<open>
  One \<^verbatim>\<open>select\<close> of the loop. The case of \<^verbatim>\<open>stopChan\<close> is ready when the channel is
  closed (nothing is ever sent on it), the case of \<^verbatim>\<open>ticker.C\<close> when a tick waits. When
  both are ready the language chooses one of them: \<open>pick_stop\<close> is that choice. When
  none is ready the goroutine stays blocked. The case of \<^verbatim>\<open>stopChan\<close> returns from the
  loop; the case of the ticker takes the tick and calls \<^verbatim>\<open>reapExpired\<close>, which reads
  the clock as \<open>now\<close>.
\<close>

definition reapLoop_select :: "bool \<Rightarrow> time \<Rightarrow> program \<Rightarrow> program" where
  "reapLoop_select pick_stop now p =
     (if reaper p \<noteq> InLoop then p
      else if stopChan_closed (this p) \<and> (pick_stop \<or> \<not> ticker_C p)
        then p\<lparr>reaper := Returned\<rparr>
      else if ticker_C p
        then p\<lparr>store := reapExpired (this p) now (store p), ticker_C := False\<rparr>
      else p)"

definition Stop :: "Cache \<Rightarrow> panic + Cache" where
  "Stop c =
     (if stopChan_closed c then Inl CloseOfClosedChannel
      else Inr (c\<lparr>stopChan_closed := True\<rparr>))"

definition GetInterval :: "Cache \<Rightarrow> duration" where
  "GetInterval c = interval c"

fun copy_range :: "gomap \<Rightarrow> string list \<Rightarrow> gomap \<Rightarrow> gomap" where
  "copy_range src [] cacheCopy = cacheCopy"
| "copy_range src (k # ks) cacheCopy =
     (case fmlookup src k of
        None \<Rightarrow> copy_range src ks cacheCopy
      | Some v \<Rightarrow> copy_range src ks (fmupd k v cacheCopy))"

definition GetCacheMap :: "Cache \<Rightarrow> heap \<Rightarrow> nat \<times> heap" where
  "GetCacheMap c h =
     (let (a, h1) = make_map h;
          src = maps h1 (cache c)
      in (a, h1\<lparr>maps := (maps h1)(a := copy_range src (range_keys src) (maps h1 a))\<rparr>))"

definition Len :: "Cache \<Rightarrow> heap \<Rightarrow> nat" where
  "Len c h = fcard (fmdom (maps h (cache c)))"

text \<open>
  What a caller can do to a map it holds: assign an entry (\<^verbatim>\<open>m[k] = e\<close>) or delete
  one (\<^verbatim>\<open>delete(m, k)\<close>), at the address of the map.
\<close>

datatype map_mutation = MapAssign string CacheEntry | MapDelete string

fun mutate :: "nat \<Rightarrow> map_mutation \<Rightarrow> heap \<Rightarrow> heap" where
  "mutate a (MapAssign k e) h = h\<lparr>maps := (maps h)(a := fmupd k e (maps h a))\<rparr>"
| "mutate a (MapDelete k) h = h\<lparr>maps := (maps h)(a := fmdrop k (maps h a))\<rparr>"

text \<open>
  The events of a run: the calls of the methods that change the state, and the steps
  of the goroutine and of its ticker. A panic ends the run.
\<close>

datatype event =
    CallAdd string byte_slice time
  | CallStop
  | CallReapExpired time
  | CallGetCacheMap
  | GoReapLoop
  | TickerFires
  | Select bool time

fun is_call :: "event \<Rightarrow> bool" where
  "is_call (CallAdd k v now) = True"
| "is_call CallStop = True"
| "is_call (CallReapExpired now) = True"
| "is_call CallGetCacheMap = True"
| "is_call GoReapLoop = False"
| "is_call TickerFires = False"
| "is_call (Select pick_stop now) = False"

fun step :: "event \<Rightarrow> program \<Rightarrow> panic + program" where
  "step (CallAdd k v now) p = Inr (p\<lparr>store := Add (this p) k v now (store p)\<rparr>)"
| "step CallStop p =
     (case Stop (this p) of Inl e \<Rightarrow> Inl e | Inr c \<Rightarrow> Inr (p\<lparr>this := c\<rparr>))"
| "step (CallReapExpired now) p = Inr (p\<lparr>store := reapExpired (this p) now (store p)\<rparr>)"
| "step CallGetCacheMap p = Inr (p\<lparr>store := snd (GetCacheMap (this p) (store p))\<rparr>)"
| "step GoReapLoop p = reapLoop_enter p"
| "step TickerFires p = Inr (ticker_fires p)"
| "step (Select pick_stop now) p = Inr (reapLoop_select pick_stop now p)"

fun run :: "event list \<Rightarrow> program \<Rightarrow> panic + program" where
  "run [] p = Inr p"
| "run (e # es) p = (case step e p of Inl x \<Rightarrow> Inl x | Inr p' \<Rightarrow> run es p')"

text \<open>
  The state of a program that has created no map yet, and the cache of the package's
  test \<^verbatim>\<open>TestCacheReapExpired\<close>: \<^verbatim>\<open>NewCache(100 * time.Millisecond)\<close>.
\<close>

definition heap0 :: heap where
  "heap0 = \<lparr>maps = (\<lambda>_. fmempty), fresh = 0\<rparr>"

definition test_cache :: Cache where
  "test_cache = this (NewCache 100000000 heap0)"

definition test_heap :: heap where
  "test_heap = store (NewCache 100000000 heap0)"

text \<open>
  The test program after the goroutine has entered its loop and \<^verbatim>\<open>key1\<close> was added
  at time 0.
\<close>

definition running_program :: program where
  "running_program =
     \<lparr>this = test_cache, store = Add test_cache ''key1'' (Bytes [1]) 0 test_heap,
      reaper = InLoop, ticker_C = False\<rparr>"

text \<open>The running program after a first call of \<^verbatim>\<open>Stop\<close>.\<close>

definition stopped_program :: program where
  "stopped_program = running_program\<lparr>this := test_cache\<lparr>stopChan_closed := True\<rparr>\<rparr>"

section \<open>Properties\<close>

subsection \<open>Time\<close>

lemma Sub_exact: "minDuration \<le> t - u \<Longrightarrow> t - u \<le> maxDuration \<Longrightarrow> Sub t u = t - u"
  by (simp add: Sub_def Let_def)

text \<open>
  Saturation changes the comparison with the interval for one interval only, the
  largest duration.
\<close>

lemma Sub_gt_iff:
  "minDuration \<le> iv \<Longrightarrow> iv < maxDuration \<Longrightarrow> iv < Sub t u \<longleftrightarrow> iv < t - u"
  by (auto simp: Sub_def Let_def)

subsection \<open>The test cache\<close>

lemma test_cache_simps:
  "cache test_cache = 0" "interval test_cache = 100000000" "stopChan_closed test_cache = False"
  by (simp_all add: test_cache_def NewCache_def make_map_def heap0_def)

lemma test_heap_simps:
  "maps test_heap = (\<lambda>_. fmempty)" "fresh test_heap = Suc 0"
  by (auto simp add: test_heap_def NewCache_def make_map_def heap0_def)

subsection \<open>The store\<close>

lemma heap_eqI:
  fixes h h' :: heap
  shows "maps h = maps h' \<Longrightarrow> fresh h = fresh h' \<Longrightarrow> h = h'"
  by simp

text \<open>
  The entry map of a cache made by \<open>NewCache\<close> lies below \<open>fresh\<close>, and no method
  lowers \<open>fresh\<close>: the hypothesis \<open>cache c < fresh h\<close> of the theorems on
  \<open>GetCacheMap\<close> holds in every state a program reaches.
\<close>

lemma NewCache_allocated: "cache (this (NewCache iv h)) < fresh (store (NewCache iv h))"
  by (simp add: NewCache_def make_map_def)

lemma Add_fresh: "fresh (Add c k v now h) = fresh h"
  by (simp add: Add_def)

lemma mutate_frame:
  "b \<noteq> a \<Longrightarrow> maps (mutate a mu h) b = maps h b"
  "fresh (mutate a mu h) = fresh h"
  by (cases mu; simp)+

lemma fold_mutate_frame:
  "b \<noteq> a \<Longrightarrow> maps (fold (mutate a) ms h) b = maps h b"
  "fresh (fold (mutate a) ms h) = fresh h"
  by (induction ms arbitrary: h) (simp_all add: mutate_frame)

subsection \<open>The two range loops\<close>

lemma set_range_keys: "set (range_keys m) = fmdom' m"
  by (simp add: range_keys_def fmdom'_alt_def)

lemma distinct_range_keys: "distinct (range_keys m)"
  by (simp add: range_keys_def sorted_list_of_fset.rep_eq)

lemma reap_range_filter:
  "reap_range now iv ks m =
     fmfilter (\<lambda>k. \<not> (k \<in> set ks \<and>
        (case fmlookup m k of None \<Rightarrow> False | Some e \<Rightarrow> iv < Sub now (CreatedAt e)))) m"
proof (induction ks arbitrary: m)
  case Nil
  show ?case by simp
next
  case (Cons key keys)
  show ?case
    by (rule fmap_ext) (auto simp: Cons.IH split: option.splits)
qed

lemma reap_range_lookup:
  assumes "fmdom' m \<subseteq> set ks"
  shows "fmlookup (reap_range now iv ks m) k =
     (case fmlookup m k of None \<Rightarrow> None
      | Some e \<Rightarrow> if iv < Sub now (CreatedAt e) then None else Some e)"
proof (cases "fmlookup m k")
  case None
  then show ?thesis by (simp add: reap_range_filter)
next
  case (Some e)
  then have "k \<in> set ks" using assms by (auto simp: fmlookup_dom'_iff)
  with Some show ?thesis by (simp add: reap_range_filter)
qed

text \<open>The sweep does not depend on the order in which the loop visits the keys.\<close>

lemma reap_range_any_order:
  assumes "fmdom' m \<subseteq> set ks"
  shows "reap_range now iv ks m = reap_range now iv (range_keys m) m"
  by (rule fmap_ext) (simp add: reap_range_lookup assms set_range_keys)

lemma reapExpired_lookup:
  "fmlookup (maps (reapExpired c now h) (cache c)) k =
     (case fmlookup (maps h (cache c)) k of None \<Rightarrow> None
      | Some e \<Rightarrow> if interval c < Sub now (CreatedAt e) then None else Some e)"
  by (simp add: reapExpired_def reap_range_lookup set_range_keys)

lemma reapExpired_frame:
  "a \<noteq> cache c \<Longrightarrow> maps (reapExpired c now h) a = maps h a"
  "fresh (reapExpired c now h) = fresh h"
  by (simp_all add: reapExpired_def)

lemma reapExpired_twice:
  "reapExpired c now (reapExpired c now h) = reapExpired c now h"
proof (rule heap_eqI)
  show "maps (reapExpired c now (reapExpired c now h)) = maps (reapExpired c now h)"
  proof
    fix a
    show "maps (reapExpired c now (reapExpired c now h)) a = maps (reapExpired c now h) a"
    proof (cases "a = cache c")
      case True
      show ?thesis unfolding True
        by (rule fmap_ext) (simp add: reapExpired_lookup split: option.splits)
    next
      case False
      then show ?thesis by (simp add: reapExpired_frame)
    qed
  qed
  show "fresh (reapExpired c now (reapExpired c now h)) = fresh (reapExpired c now h)"
    by (simp add: reapExpired_frame)
qed

lemma copy_range_lookup:
  "fmlookup (copy_range src ks acc) k =
     (if k \<in> set ks \<and> fmlookup src k \<noteq> None then fmlookup src k else fmlookup acc k)"
  by (induction ks arbitrary: acc) (auto split: option.splits)

lemma copy_range_any_order:
  assumes "fmdom' src \<subseteq> set ks"
  shows "copy_range src ks fmempty = src"
proof (rule fmap_ext)
  fix k
  show "fmlookup (copy_range src ks fmempty) k = fmlookup src k"
  proof (cases "fmlookup src k")
    case None
    then show ?thesis by (simp add: copy_range_lookup)
  next
    case (Some e)
    then have "k \<in> set ks" using assms by (auto simp: fmlookup_dom'_iff)
    with Some show ?thesis by (simp add: copy_range_lookup)
  qed
qed

lemma copy_range_all: "copy_range src (range_keys src) fmempty = src"
  by (simp add: copy_range_any_order set_range_keys)

lemma GetCacheMap_eq:
  assumes "cache c < fresh h"
  shows "GetCacheMap c h =
     (fresh h, h\<lparr>maps := (maps h)(fresh h := maps h (cache c)), fresh := Suc (fresh h)\<rparr>)"
  using assms by (simp add: GetCacheMap_def make_map_def copy_range_all)

subsection \<open>Add and Get\<close>

text \<open>
  C1: for every key \<open>k\<close> and value \<open>v\<close>, \<^verbatim>\<open>Add(k, v)\<close> followed by \<^verbatim>\<open>Get(k)\<close>, with no
  sweep in between, returns \<open>v\<close> with nil normalized to the empty slice, and \<open>true\<close>.
\<close>

theorem C1_add_then_get:
  "Get c k (Add c k v now h) =
     (case v of NilSlice \<Rightarrow> Bytes [] | Bytes bs \<Rightarrow> Bytes bs, True)"
  by (simp add: Get_def Add_def split: byte_slice.splits)

theorem C1_add_then_get_witness:
  "Get test_cache ''test-key'' (Add test_cache ''test-key'' (Bytes [116, 101]) 7 test_heap)
     = (Bytes [116, 101], True)
   \<and> Get test_cache ''test-key'' (Add test_cache ''test-key'' NilSlice 7 test_heap)
     = (Bytes [], True)"
  using C1_add_then_get [of test_cache "''test-key''" "Bytes [116, 101]" 7 test_heap]
        C1_add_then_get [of test_cache "''test-key''" NilSlice 7 test_heap]
  by simp

subsection \<open>The sweep\<close>

text \<open>
  C2: one sweep of \<^verbatim>\<open>reapExpired\<close> taken at time \<open>now\<close> removes exactly the entries
  whose age \<^verbatim>\<open>now.Sub(entry.CreatedAt)\<close> is greater than the interval; every other
  entry is still there with the same value and the same timestamp, and no key
  appears. For every interval below the largest duration the age is the plain
  difference \<open>now - CreatedAt\<close>. The witness is the test of the package: \<open>key1\<close> at
  0 ms, \<open>key2\<close> at 120 ms, a sweep at 125 ms with an interval of 100 ms.
\<close>

theorem C2_reapExpired_exact:
  "fmlookup (maps (reapExpired c now h) (cache c)) k =
     (case fmlookup (maps h (cache c)) k of
        None \<Rightarrow> None
      | Some e \<Rightarrow> if interval c < Sub now (CreatedAt e) then None else Some e)
   \<and> (minDuration \<le> interval c \<and> interval c < maxDuration \<longrightarrow>
        fmlookup (maps (reapExpired c now h) (cache c)) k =
          (case fmlookup (maps h (cache c)) k of
             None \<Rightarrow> None
           | Some e \<Rightarrow> if interval c < now - CreatedAt e then None else Some e))"
  by (simp add: reapExpired_lookup Sub_gt_iff split: option.splits)

theorem C2_reapExpired_exact_witness:
  "minDuration \<le> interval test_cache \<and> interval test_cache < maxDuration
   \<and> fmlookup (maps (reapExpired test_cache 125000000
        (Add test_cache ''key2'' (Bytes [2]) 120000000
          (Add test_cache ''key1'' (Bytes [1]) 0 test_heap))) (cache test_cache)) ''key1'' = None
   \<and> fmlookup (maps (reapExpired test_cache 125000000
        (Add test_cache ''key2'' (Bytes [2]) 120000000
          (Add test_cache ''key1'' (Bytes [1]) 0 test_heap))) (cache test_cache)) ''key2''
      = Some \<lparr>CreatedAt = 120000000, Val = Bytes [2]\<rparr>"
proof -
  let ?h = "Add test_cache ''key2'' (Bytes [2]) 120000000
              (Add test_cache ''key1'' (Bytes [1]) 0 test_heap)"
  have iv: "minDuration \<le> interval test_cache \<and> interval test_cache < maxDuration"
    by (simp add: test_cache_simps minDuration_def maxDuration_def)
  have k1: "fmlookup (maps ?h (cache test_cache)) ''key1'' = Some \<lparr>CreatedAt = 0, Val = Bytes [1]\<rparr>"
    by (simp add: Add_def)
  have k2: "fmlookup (maps ?h (cache test_cache)) ''key2''
              = Some \<lparr>CreatedAt = 120000000, Val = Bytes [2]\<rparr>"
    by (simp add: Add_def)
  from C2_reapExpired_exact [of test_cache 125000000 ?h "''key1''"]
       C2_reapExpired_exact [of test_cache 125000000 ?h "''key2''"] iv k1 k2
  show ?thesis by (simp add: test_cache_simps Sub_def minDuration_def maxDuration_def)
qed

text \<open>
  C7: the sweep is idempotent: a second sweep at the same time \<open>now\<close>, with no insert
  in between, removes nothing; the state after two sweeps is the state after one.
\<close>

theorem C7_reapExpired_idempotent:
  "reapExpired c now (reapExpired c now h) = reapExpired c now h"
  by (rule reapExpired_twice)

theorem C7_reapExpired_idempotent_witness:
  "reapExpired test_cache 125000000
     (reapExpired test_cache 125000000 (Add test_cache ''key1'' (Bytes [1]) 0 test_heap))
   = reapExpired test_cache 125000000 (Add test_cache ''key1'' (Bytes [1]) 0 test_heap)"
  by (rule C7_reapExpired_idempotent)

subsection \<open>Get and the age of an entry\<close>

text \<open>
  A stored nil value shows that \<^verbatim>\<open>Get\<close> does not always return the stored value of
  a present key: the entry holds the nil slice, \<^verbatim>\<open>Get\<close> returns the empty one.
\<close>

theorem C4_get_stored_value_counterexample:
  "fmlookup (maps (Add test_cache ''nil-value-test'' NilSlice 0 test_heap) (cache test_cache))
       ''nil-value-test'' = Some \<lparr>CreatedAt = 0, Val = NilSlice\<rparr>
   \<and> Get test_cache ''nil-value-test'' (Add test_cache ''nil-value-test'' NilSlice 0 test_heap)
       \<noteq> (Val \<lparr>CreatedAt = 0, Val = NilSlice\<rparr>, True)"
  by (simp add: Get_def Add_def)

text \<open>
  C4, as amended: \<^verbatim>\<open>Get\<close> does not enforce expiry. For every key present in the entry
  map, \<^verbatim>\<open>Get\<close> returns \<open>true\<close> and the stored value, with a stored nil returned as the
  empty slice, whatever the age of the entry, also when the age is greater than
  the interval; and \<^verbatim>\<open>Get\<close> returns the empty slice and \<open>false\<close> exactly when the key
  is absent.
\<close>

theorem C4_get_ignores_age:
  "(fmlookup (maps h (cache c)) k = Some e \<longrightarrow>
      Get c k h = (if Val e = NilSlice then Bytes [] else Val e, True))
   \<and> (fmlookup (maps h (cache c)) k = Some e \<and> interval c < Sub now (CreatedAt e) \<longrightarrow>
      snd (Get c k h))
   \<and> (Get c k h = (Bytes [], False) \<longleftrightarrow> fmlookup (maps h (cache c)) k = None)"
  by (auto simp: Get_def split: option.splits)

theorem C4_get_ignores_age_witness:
  "interval test_cache < Sub 500000000 0
   \<and> Get test_cache ''a'' (Add test_cache ''a'' (Bytes [1]) 0 test_heap) = (Bytes [1], True)
   \<and> Get test_cache ''b'' (Add test_cache ''a'' (Bytes [1]) 0 test_heap) = (Bytes [], False)"
proof -
  let ?h = "Add test_cache ''a'' (Bytes [1]) 0 test_heap"
  have 1: "fmlookup (maps ?h (cache test_cache)) ''a'' = Some \<lparr>CreatedAt = 0, Val = Bytes [1]\<rparr>"
    by (simp add: Add_def)
  have 2: "fmlookup (maps ?h (cache test_cache)) ''b'' = None"
    by (simp add: Add_def test_heap_simps)
  have 3: "interval test_cache < Sub 500000000 0"
    by (simp add: test_cache_simps Sub_def maxDuration_def minDuration_def)
  from C4_get_ignores_age [of ?h test_cache "''a''" "\<lparr>CreatedAt = 0, Val = Bytes [1]\<rparr>" 500000000]
       C4_get_ignores_age [of ?h test_cache "''b''"] 1 2 3
  show ?thesis by simp
qed

subsection \<open>Overwriting\<close>

text \<open>
  When the second value is nil, \<^verbatim>\<open>Get\<close> after the two inserts does not return the
  second value: it returns the empty slice.
\<close>

theorem C5_overwrite_counterexample:
  "Get test_cache ''overwrite-test''
     (Add test_cache ''overwrite-test'' NilSlice 2
       (Add test_cache ''overwrite-test'' (Bytes [1]) 1 test_heap)) \<noteq> (NilSlice, True)"
  by (simp add: Get_def Add_def)

text \<open>
  C5, as amended: overwrite is last-writer-wins. After \<^verbatim>\<open>Add(k, v1)\<close> and
  \<^verbatim>\<open>Add(k, v2)\<close>, with no sweep in between, \<^verbatim>\<open>Get(k)\<close> returns \<open>true\<close> and \<open>v2\<close>, with
  a nil \<open>v2\<close> returned as the empty slice; the entry holds \<open>v2\<close> and the timestamp of
  the second \<^verbatim>\<open>Add\<close>; and nothing of the first \<^verbatim>\<open>Add\<close> is left: the state is the state
  after the second \<^verbatim>\<open>Add\<close> alone.
\<close>

theorem C5_overwrite_last_writer_wins:
  "Get c k (Add c k v2 t2 (Add c k v1 t1 h)) =
     (case v2 of NilSlice \<Rightarrow> Bytes [] | Bytes bs \<Rightarrow> Bytes bs, True)
   \<and> fmlookup (maps (Add c k v2 t2 (Add c k v1 t1 h)) (cache c)) k
       = Some \<lparr>CreatedAt = t2, Val = v2\<rparr>
   \<and> Add c k v2 t2 (Add c k v1 t1 h) = Add c k v2 t2 h"
  by (simp add: Get_def Add_def split: byte_slice.splits)

theorem C5_overwrite_last_writer_wins_witness:
  "Get test_cache ''overwrite-test''
     (Add test_cache ''overwrite-test'' (Bytes [2]) 9
       (Add test_cache ''overwrite-test'' (Bytes [1]) 1 test_heap)) = (Bytes [2], True)"
  using C5_overwrite_last_writer_wins
          [of test_cache "''overwrite-test''" "Bytes [2]" 9 "Bytes [1]" 1 test_heap, THEN conjunct1]
  by simp

subsection \<open>Nil values\<close>

text \<open>
  C6: \<^verbatim>\<open>Get\<close> never returns the nil slice, so never nil together with \<open>true\<close>. After
  \<^verbatim>\<open>Add(k, nil)\<close>, and in every state where the entry of \<open>k\<close> holds the nil slice,
  \<^verbatim>\<open>Get(k)\<close> returns the empty slice, of length 0, and \<open>true\<close>.
\<close>

theorem C6_get_never_nil:
  "fst (Get c k h) \<noteq> NilSlice
   \<and> Get c k (Add c k NilSlice now h) = (Bytes [], True)
   \<and> len (fst (Get c k (Add c k NilSlice now h))) = 0
   \<and> (fmlookup (maps h (cache c)) k = Some e \<and> Val e = NilSlice \<longrightarrow> Get c k h = (Bytes [], True))"
  by (auto simp: Get_def Add_def split: option.splits)

theorem C6_get_never_nil_witness:
  "Get test_cache ''nil-value-test''
     (Add test_cache ''other'' (Bytes [7]) 5
       (Add test_cache ''nil-value-test'' NilSlice 0 test_heap)) = (Bytes [], True)"
proof -
  let ?h = "Add test_cache ''other'' (Bytes [7]) 5
       (Add test_cache ''nil-value-test'' NilSlice 0 test_heap)"
  have 1: "fmlookup (maps ?h (cache test_cache)) ''nil-value-test''
       = Some \<lparr>CreatedAt = 0, Val = NilSlice\<rparr> \<and> Val \<lparr>CreatedAt = 0, Val = NilSlice\<rparr> = NilSlice"
    by (simp add: Add_def)
  from C6_get_never_nil [of test_cache "''nil-value-test''" ?h _ "\<lparr>CreatedAt = 0, Val = NilSlice\<rparr>"] 1
  show ?thesis by blast
qed

text \<open>
  C10: \<^verbatim>\<open>Add\<close> stores the value as it is passed. After \<^verbatim>\<open>Add(k, nil)\<close> the entry holds
  the nil slice; \<^verbatim>\<open>Get\<close> alone turns it into the empty slice, and the map that
  \<^verbatim>\<open>GetCacheMap\<close> returns holds the nil slice under \<open>k\<close>.
\<close>

theorem C10_add_stores_unnormalized:
  "fmlookup (maps (Add c k v now h) (cache c)) k = Some \<lparr>CreatedAt = now, Val = v\<rparr>
   \<and> Get c k (Add c k NilSlice now h) = (Bytes [], True)
   \<and> (cache c < fresh h \<longrightarrow>
        fmlookup (maps (snd (GetCacheMap c (Add c k NilSlice now h)))
                       (fst (GetCacheMap c (Add c k NilSlice now h)))) k
          = Some \<lparr>CreatedAt = now, Val = NilSlice\<rparr>)"
proof -
  have "cache c < fresh h \<Longrightarrow> cache c < fresh (Add c k NilSlice now h)"
    by (simp add: Add_fresh)
  then show ?thesis
    by (auto simp: GetCacheMap_eq) (simp_all add: Add_def Get_def)
qed

theorem C10_add_stores_unnormalized_witness:
  "Val (the (fmlookup
        (maps (snd (GetCacheMap test_cache (Add test_cache ''nil-value-test'' NilSlice 3 test_heap)))
              (fst (GetCacheMap test_cache (Add test_cache ''nil-value-test'' NilSlice 3 test_heap))))
        ''nil-value-test'')) = NilSlice
   \<and> fst (Get test_cache ''nil-value-test'' (Add test_cache ''nil-value-test'' NilSlice 3 test_heap))
       = Bytes []"
proof -
  have 1: "cache test_cache < fresh test_heap"
    by (simp add: test_cache_simps test_heap_simps)
  from C10_add_stores_unnormalized [of test_cache "''nil-value-test''" NilSlice 3 test_heap] 1
  show ?thesis by simp
qed

subsection \<open>Stop\<close>

text \<open>
  The second \<^verbatim>\<open>Stop\<close> on the test cache closes a closed channel: it panics.
\<close>

theorem C3_double_stop_counterexample:
  "Stop test_cache = Inr (test_cache\<lparr>stopChan_closed := True\<rparr>)
   \<and> Stop (test_cache\<lparr>stopChan_closed := True\<rparr>) = Inl CloseOfClosedChannel"
  by (simp add: Stop_def test_cache_simps)

text \<open>
  C3, as amended: a second \<^verbatim>\<open>Stop\<close> on the same cache is not a no-op. For every cache
  on which \<^verbatim>\<open>Stop\<close> has returned once, a second \<^verbatim>\<open>Stop\<close> raises the run-time panic
  of closing a closed channel: a defined and detectable misuse error. The first
  call found the channel open and left it closed, and the cache names the same
  entry map.
\<close>

theorem C3_second_stop_panics:
  "Stop c = Inr c' \<Longrightarrow>
     Stop c' = Inl CloseOfClosedChannel
     \<and> stopChan_closed c' \<and> \<not> stopChan_closed c \<and> cache c' = cache c"
  by (auto simp: Stop_def split: if_splits)

theorem C3_second_stop_panics_witness:
  "Stop test_cache = Inr (test_cache\<lparr>stopChan_closed := True\<rparr>)
   \<and> Stop (test_cache\<lparr>stopChan_closed := True\<rparr>) = Inl CloseOfClosedChannel
   \<and> cache (test_cache\<lparr>stopChan_closed := True\<rparr>) = cache test_cache"
proof -
  have s: "Stop test_cache = Inr (test_cache\<lparr>stopChan_closed := True\<rparr>)"
    by (simp add: Stop_def test_cache_simps)
  from C3_second_stop_panics [OF s] s show ?thesis by simp
qed

subsection \<open>The goroutine of reapLoop\<close>

text \<open>
  The state \<open>running_program\<close> is reached from \<^verbatim>\<open>NewCache\<close>. A cache made with an
  interval that is not positive ends the program as soon as the goroutine runs.
\<close>

lemma running_program_reached:
  "run [GoReapLoop, CallAdd ''key1'' (Bytes [1]) 0] (NewCache 100000000 heap0) = Inr running_program"
  by (simp add: running_program_def test_cache_def test_heap_def reapLoop_enter_def
      NewCache_def make_map_def heap0_def)

lemma reapLoop_nonpositive:
  "iv \<le> 0 \<Longrightarrow> run [GoReapLoop] (NewCache iv h) = Inl NonPositiveTickerInterval"
  by (simp add: reapLoop_enter_def NewCache_def make_map_def)

text \<open>
  The goroutine sweeps: a \<^verbatim>\<open>select\<close> that finds a tick and an open channel calls
  \<^verbatim>\<open>reapExpired\<close>.
\<close>

lemma select_sweeps:
  "reaper p = InLoop \<Longrightarrow> ticker_C p \<Longrightarrow> \<not> stopChan_closed (this p) \<Longrightarrow>
     reapLoop_select pick now p
       = p\<lparr>store := reapExpired (this p) now (store p), ticker_C := False\<rparr>"
  by (simp add: reapLoop_select_def)

text \<open>No step opens the channel again.\<close>

lemma step_keeps_closed:
  "step e p = Inr q \<Longrightarrow> stopChan_closed (this p) \<Longrightarrow> stopChan_closed (this q)"
  by (cases e)
     (auto simp: Stop_def reapLoop_enter_def ticker_fires_def reapLoop_select_def
           split: if_splits)

lemma run_keeps_closed:
  "run evs p = Inr q \<Longrightarrow> stopChan_closed (this p) \<Longrightarrow> stopChan_closed (this q)"
proof (induction evs arbitrary: p)
  case Nil
  then show ?case by simp
next
  case (Cons e es)
  then show ?case
    by (cases "step e p") (auto dest: step_keeps_closed)
qed

text \<open>
  On an open channel the \<^verbatim>\<open>select\<close> never returns from the loop; on a closed one it
  returns, unless a tick waits and the choice falls on the tick.
\<close>

lemma select_open:
  "\<not> stopChan_closed (this p) \<Longrightarrow> reaper p = InLoop \<Longrightarrow>
     reaper (reapLoop_select pick now p) = InLoop"
  by (simp add: reapLoop_select_def)

lemma select_closed:
  "stopChan_closed (this p) \<Longrightarrow> reaper p = InLoop \<Longrightarrow> pick \<or> \<not> ticker_C p \<Longrightarrow>
     reapLoop_select pick now p = p\<lparr>reaper := Returned\<rparr>"
  by (simp add: reapLoop_select_def)

text \<open>
  Once the goroutine has returned, its events and those of the ticker change nothing:
  a run is the run of its calls alone.
\<close>

lemma step_returned:
  "reaper p = Returned \<Longrightarrow> \<not> is_call e \<Longrightarrow> step e p = Inr p"
  by (cases e) (simp_all add: reapLoop_enter_def ticker_fires_def reapLoop_select_def)

lemma step_stays_returned:
  "reaper p = Returned \<Longrightarrow> step e p = Inr q \<Longrightarrow> reaper q = Returned"
  by (cases e)
     (auto simp: Stop_def reapLoop_enter_def ticker_fires_def reapLoop_select_def
           split: if_splits)

lemma run_returned:
  "reaper p = Returned \<Longrightarrow> run evs p = run (filter is_call evs) p"
proof (induction evs arbitrary: p)
  case Nil
  show ?case by simp
next
  case (Cons e es)
  show ?case
  proof (cases "is_call e")
    case True
    show ?thesis
    proof (cases "step e p")
      case (Inl x)
      with True show ?thesis by simp
    next
      case (Inr p')
      with Cons.prems have "reaper p' = Returned" by (simp add: step_stays_returned)
      with Cons.IH [of p'] True Inr show ?thesis by simp
    qed
  next
    case False
    with Cons show ?thesis by (simp add: step_returned)
  qed
qed

text \<open>No method but \<^verbatim>\<open>Stop\<close> reads the channel.\<close>

lemma Add_flag: "Add (c\<lparr>stopChan_closed := b\<rparr>) k v now h = Add c k v now h"
  by (simp add: Add_def)

lemma reapExpired_flag: "reapExpired (c\<lparr>stopChan_closed := b\<rparr>) now h = reapExpired c now h"
  by (simp add: reapExpired_def)

lemma GetCacheMap_flag: "GetCacheMap (c\<lparr>stopChan_closed := b\<rparr>) h = GetCacheMap c h"
  by (simp add: GetCacheMap_def)

lemma Get_flag: "Get (c\<lparr>stopChan_closed := b\<rparr>) k h = Get c k h"
  by (simp add: Get_def)

lemma Len_flag: "Len (c\<lparr>stopChan_closed := b\<rparr>) h = Len c h"
  by (simp add: Len_def)

lemma step_call_flag:
  assumes "is_call e" and "e \<noteq> CallStop"
  shows "\<exists>q. step e p = Inr q \<and> this q = this p
      \<and> step e (p\<lparr>this := this p\<lparr>stopChan_closed := b\<rparr>\<rparr>)
          = Inr (q\<lparr>this := this p\<lparr>stopChan_closed := b\<rparr>\<rparr>)"
proof (cases e)
  case (CallAdd k v now)
  then show ?thesis by (simp add: Add_flag)
next
  case CallStop
  with assms show ?thesis by simp
next
  case (CallReapExpired now)
  then show ?thesis by (simp add: reapExpired_flag)
next
  case CallGetCacheMap
  then show ?thesis by (simp add: GetCacheMap_flag)
next
  case GoReapLoop
  with assms show ?thesis by simp
next
  case TickerFires
  with assms show ?thesis by simp
next
  case (Select pick now)
  with assms show ?thesis by simp
qed

lemma run_calls_flag:
  assumes "list_all is_call evs" and "CallStop \<notin> set evs"
  shows "\<exists>q. run evs p = Inr q \<and> this q = this p
      \<and> run evs (p\<lparr>this := this p\<lparr>stopChan_closed := b\<rparr>\<rparr>)
          = Inr (q\<lparr>this := this p\<lparr>stopChan_closed := b\<rparr>\<rparr>)"
  using assms
proof (induction evs arbitrary: p)
  case Nil
  show ?case by simp
next
  case (Cons e es)
  then have e: "is_call e" "e \<noteq> CallStop" and es: "list_all is_call es" "CallStop \<notin> set es"
    by auto
  from step_call_flag [OF e, of p b] obtain p1 where
    s1: "step e p = Inr p1" and t1: "this p1 = this p"
    and s1': "step e (p\<lparr>this := this p\<lparr>stopChan_closed := b\<rparr>\<rparr>)
          = Inr (p1\<lparr>this := this p\<lparr>stopChan_closed := b\<rparr>\<rparr>)"
    by blast
  from Cons.IH [OF es, of p1] obtain q where
    r1: "run es p1 = Inr q" and t2: "this q = this p1"
    and r1': "run es (p1\<lparr>this := this p1\<lparr>stopChan_closed := b\<rparr>\<rparr>)
          = Inr (q\<lparr>this := this p1\<lparr>stopChan_closed := b\<rparr>\<rparr>)"
    by blast
  have a: "run (e # es) p = Inr q" by (simp add: s1 r1)
  have b: "this q = this p" by (simp only: t2 t1)
  have c: "run (e # es) (p\<lparr>this := this p\<lparr>stopChan_closed := b\<rparr>\<rparr>)
          = Inr (q\<lparr>this := this p\<lparr>stopChan_closed := b\<rparr>\<rparr>)"
    using r1' by (simp add: s1' t1)
  from a b c show ?case by blast
qed

lemma run_calls_after_Stop:
  assumes "step CallStop p = Inr p'" and "list_all is_call evs" and "CallStop \<notin> set evs"
  shows "map_sum id store (run evs p') = map_sum id store (run evs p)"
proof -
  from assms(1) have p': "p' = p\<lparr>this := this p\<lparr>stopChan_closed := True\<rparr>\<rparr>"
    by (auto simp: Stop_def split: if_splits)
  from run_calls_flag [OF assms(2,3), of p True] obtain q where
    "run evs p = Inr q" "run evs p' = Inr (q\<lparr>this := this p\<lparr>stopChan_closed := True\<rparr>\<rparr>)"
    unfolding p' by blast
  then show ?thesis by simp
qed

text \<open>
  C8: \<^verbatim>\<open>Stop\<close> leaves the entry map untouched, and only future reaping ceases. For
  every state of the program, a call of \<^verbatim>\<open>Stop\<close> either panics, and then the channel
  was closed before, or it changes neither the store, so no key, value or
  timestamp, nor the goroutine nor the ticker. After it \<^verbatim>\<open>Get\<close>, \<^verbatim>\<open>Len\<close> and \<^verbatim>\<open>Add\<close>
  return and do what they did before, and every sequence \<open>cs\<close> of further calls
  reaches the same stores as without the \<^verbatim>\<open>Stop\<close>. What changes is the goroutine of
  \<^verbatim>\<open>reapLoop\<close>: before the \<^verbatim>\<open>Stop\<close> its \<^verbatim>\<open>select\<close> never returns from the loop; in every
  state \<open>q\<close> that a run \<open>evs\<close> reaches after the \<^verbatim>\<open>Stop\<close> the channel is still closed, and
  the \<^verbatim>\<open>select\<close> returns from the loop when no tick waits or the choice falls on the
  channel; and once the goroutine has returned, no tick and no \<^verbatim>\<open>select\<close> sweeps
  again: every run \<open>evs'\<close> from there is the run of its calls alone.
\<close>

theorem C8_stop_frame:
  "(case step CallStop p of
      Inl e \<Rightarrow> e = CloseOfClosedChannel \<and> stopChan_closed (this p)
    | Inr p' \<Rightarrow>
        store p' = store p \<and> reaper p' = reaper p \<and> ticker_C p' = ticker_C p
        \<and> cache (this p') = cache (this p) \<and> interval (this p') = interval (this p)
        \<and> Get (this p') k (store p') = Get (this p) k (store p)
        \<and> Len (this p') (store p') = Len (this p) (store p)
        \<and> Add (this p') k v now (store p') = Add (this p) k v now (store p)
        \<and> (list_all is_call cs \<and> CallStop \<notin> set cs \<longrightarrow>
             map_sum id store (run cs p') = map_sum id store (run cs p))
        \<and> (reaper p = InLoop \<longrightarrow> reaper (reapLoop_select pick now p) = InLoop)
        \<and> (run evs p' = Inr q \<longrightarrow>
             stopChan_closed (this q)
             \<and> (reaper q = InLoop \<and> (pick \<or> \<not> ticker_C q) \<longrightarrow>
                  reapLoop_select pick now q = q\<lparr>reaper := Returned\<rparr>)
             \<and> (reaper q = Returned \<longrightarrow> run evs' q = run (filter is_call evs') q)))"
proof (cases "step CallStop p")
  case (Inl e)
  then have "e = CloseOfClosedChannel \<and> stopChan_closed (this p)"
    by (auto simp: Stop_def split: if_splits)
  then show ?thesis by (simp only: Inl sum.case)
next
  case (Inr p')
  then have p': "p' = p\<lparr>this := this p\<lparr>stopChan_closed := True\<rparr>\<rparr>"
    and op: "\<not> stopChan_closed (this p)"
    by (auto simp: Stop_def split: if_splits)
  have frame: "store p' = store p \<and> reaper p' = reaper p \<and> ticker_C p' = ticker_C p
        \<and> cache (this p') = cache (this p) \<and> interval (this p') = interval (this p)"
    by (simp add: p')
  have ops: "Get (this p') k (store p') = Get (this p) k (store p)
        \<and> Len (this p') (store p') = Len (this p) (store p)
        \<and> Add (this p') k v now (store p') = Add (this p) k v now (store p)"
    by (simp add: p' Get_flag Len_flag Add_flag)
  have calls: "list_all is_call cs \<and> CallStop \<notin> set cs \<longrightarrow>
             map_sum id store (run cs p') = map_sum id store (run cs p)"
    using run_calls_after_Stop [OF Inr] by blast
  have before: "reaper p = InLoop \<longrightarrow> reaper (reapLoop_select pick now p) = InLoop"
    using op by (simp add: select_open)
  have after: "run evs p' = Inr q \<longrightarrow>
             stopChan_closed (this q)
             \<and> (reaper q = InLoop \<and> (pick \<or> \<not> ticker_C q) \<longrightarrow>
                  reapLoop_select pick now q = q\<lparr>reaper := Returned\<rparr>)
             \<and> (reaper q = Returned \<longrightarrow> run evs' q = run (filter is_call evs') q)"
  proof (intro impI conjI)
    assume r: "run evs p' = Inr q"
    have "stopChan_closed (this p')" by (simp add: p')
    with r show c: "stopChan_closed (this q)" by (rule run_keeps_closed)
    show "reapLoop_select pick now q = q\<lparr>reaper := Returned\<rparr>"
      if "reaper q = InLoop \<and> (pick \<or> \<not> ticker_C q)"
      using that c by (intro select_closed) blast+
    show "run evs' q = run (filter is_call evs') q" if "reaper q = Returned"
      using that by (rule run_returned)
  qed
  have "store p' = store p \<and> reaper p' = reaper p \<and> ticker_C p' = ticker_C p
        \<and> cache (this p') = cache (this p) \<and> interval (this p') = interval (this p)
        \<and> Get (this p') k (store p') = Get (this p) k (store p)
        \<and> Len (this p') (store p') = Len (this p) (store p)
        \<and> Add (this p') k v now (store p') = Add (this p) k v now (store p)
        \<and> (list_all is_call cs \<and> CallStop \<notin> set cs \<longrightarrow>
             map_sum id store (run cs p') = map_sum id store (run cs p))
        \<and> (reaper p = InLoop \<longrightarrow> reaper (reapLoop_select pick now p) = InLoop)
        \<and> (run evs p' = Inr q \<longrightarrow>
             stopChan_closed (this q)
             \<and> (reaper q = InLoop \<and> (pick \<or> \<not> ticker_C q) \<longrightarrow>
                  reapLoop_select pick now q = q\<lparr>reaper := Returned\<rparr>)
             \<and> (reaper q = Returned \<longrightarrow> run evs' q = run (filter is_call evs') q))"
    using frame ops calls before after by (intro conjI) (elim conjE, assumption)+
  then show ?thesis unfolding Inr sum.case .
qed

theorem C8_stop_frame_witness:
  "step CallStop running_program = Inr stopped_program
   \<and> Get (this stopped_program) ''key1'' (store stopped_program) = (Bytes [1], True)
   \<and> map_sum id store (run [CallAdd ''key2'' (Bytes [2]) 5] stopped_program)
       = map_sum id store (run [CallAdd ''key2'' (Bytes [2]) 5] running_program)
   \<and> reaper (reapLoop_select False 200000000 running_program) = InLoop
   \<and> run [Select False 200000000] stopped_program = Inr (stopped_program\<lparr>reaper := Returned\<rparr>)
   \<and> run [TickerFires, Select False 1000000000] (stopped_program\<lparr>reaper := Returned\<rparr>)
       = Inr (stopped_program\<lparr>reaper := Returned\<rparr>)"
proof -
  let ?cs = "[CallAdd ''key2'' (Bytes [2]) 5]"
  let ?r = "stopped_program\<lparr>reaper := Returned\<rparr>"
  have s: "step CallStop running_program = Inr stopped_program"
    by (simp add: running_program_def stopped_program_def Stop_def test_cache_simps)
  have h1: "list_all is_call ?cs \<and> CallStop \<notin> set ?cs" by simp
  have h2: "reaper running_program = InLoop" by (simp add: running_program_def)
  have h3: "run [] stopped_program = Inr stopped_program" by simp
  have h4: "reaper stopped_program = InLoop \<and> (False \<or> \<not> ticker_C stopped_program)"
    by (simp add: stopped_program_def running_program_def)
  have g: "Get (this running_program) ''key1'' (store running_program) = (Bytes [1], True)"
    by (simp add: running_program_def Get_def Add_def)
  note T1 = C8_stop_frame [where p = running_program and k = "''key1''" and cs = ?cs
      and pick = False and now = 200000000 and evs = "[]" and q = stopped_program,
      unfolded s sum.case]
  from T1 have "Get (this stopped_program) ''key1'' (store stopped_program)
      = Get (this running_program) ''key1'' (store running_program)"
    by blast
  with g have a: "Get (this stopped_program) ''key1'' (store stopped_program) = (Bytes [1], True)"
    by (simp only:)
  from T1 h1 have b: "map_sum id store (run ?cs stopped_program)
       = map_sum id store (run ?cs running_program)"
    by blast
  from T1 h2 have c: "reaper (reapLoop_select False 200000000 running_program) = InLoop"
    by blast
  from T1 h3 h4 have d0: "reapLoop_select False 200000000 stopped_program = ?r"
    by blast
  then have d: "run [Select False 200000000] stopped_program = Inr ?r"
    by simp
  have h5: "reaper ?r = Returned" by simp
  note T2 = C8_stop_frame [where p = running_program and evs = "[Select False 200000000]"
      and q = ?r and evs' = "[TickerFires, Select False 1000000000]",
      unfolded s sum.case]
  from T2 d h5 have "run [TickerFires, Select False 1000000000] ?r
      = run (filter is_call [TickerFires, Select False 1000000000]) ?r"
    by blast
  then have e: "run [TickerFires, Select False 1000000000] ?r = Inr ?r"
    by (simp only: filter.simps is_call.simps if_False run.simps)
  from s a b c d e show ?thesis by (intro conjI)
qed

subsection \<open>GetCacheMap\<close>

text \<open>
  C9: \<^verbatim>\<open>GetCacheMap\<close> returns an independent copy of the entry map. The map it
  returns is a new object with the entries of the cache; the call itself changes
  no result of \<^verbatim>\<open>Get\<close> or \<^verbatim>\<open>Len\<close>; and after any sequence \<open>ms\<close> of assignments and
  deletions on the returned map, \<^verbatim>\<open>Get\<close>, \<^verbatim>\<open>Len\<close> and the contents of a further
  \<^verbatim>\<open>GetCacheMap\<close> on the cache are what they were before the mutations.
\<close>

theorem C9_GetCacheMap_independent_copy:
  assumes "cache c < fresh h" and "GetCacheMap c h = (a, h1)"
  shows "a \<noteq> cache c
   \<and> maps h1 a = maps h (cache c)
   \<and> Get c k h1 = Get c k h
   \<and> Len c h1 = Len c h
   \<and> Get c k (fold (mutate a) ms h1) = Get c k h1
   \<and> Len c (fold (mutate a) ms h1) = Len c h1
   \<and> maps (snd (GetCacheMap c (fold (mutate a) ms h1)))
          (fst (GetCacheMap c (fold (mutate a) ms h1)))
       = maps (snd (GetCacheMap c h1)) (fst (GetCacheMap c h1))"
proof -
  let ?h2 = "fold (mutate a) ms h1"
  from assms have a: "a = fresh h"
    and h1: "h1 = h\<lparr>maps := (maps h)(fresh h := maps h (cache c)), fresh := Suc (fresh h)\<rparr>"
    by (auto simp: GetCacheMap_eq)
  from assms(1) a have ne: "cache c \<noteq> a" by simp
  have copy: "maps h1 a = maps h (cache c)" using a h1 by simp
  have m1: "maps h1 (cache c) = maps h (cache c)" using ne a h1 by simp
  have f1: "cache c < fresh h1" using assms(1) h1 by simp
  have m2: "maps ?h2 (cache c) = maps h1 (cache c)" using ne by (simp add: fold_mutate_frame)
  have f2: "cache c < fresh ?h2" using f1 by (simp add: fold_mutate_frame)
  have g1: "Get c k h1 = Get c k h" by (simp add: Get_def m1)
  have l1: "Len c h1 = Len c h" by (simp add: Len_def m1)
  have g2: "Get c k ?h2 = Get c k h1" by (simp add: Get_def m2)
  have l2: "Len c ?h2 = Len c h1" by (simp add: Len_def m2)
  have c1: "maps (snd (GetCacheMap c h1)) (fst (GetCacheMap c h1)) = maps h1 (cache c)"
    by (simp add: GetCacheMap_eq [OF f1])
  have c2: "maps (snd (GetCacheMap c ?h2)) (fst (GetCacheMap c ?h2)) = maps ?h2 (cache c)"
    by (simp add: GetCacheMap_eq [OF f2])
  from ne copy g1 l1 g2 l2 c1 c2 m2 show ?thesis by simp
qed

theorem C9_GetCacheMap_independent_copy_witness:
  "cache test_cache < fresh (Add test_cache ''a'' (Bytes [1]) 0 test_heap)
   \<and> Get test_cache ''a''
     (fold (mutate (fresh (Add test_cache ''a'' (Bytes [1]) 0 test_heap)))
        [MapDelete ''a'', MapAssign ''b'' \<lparr>CreatedAt = 9, Val = NilSlice\<rparr>]
        (snd (GetCacheMap test_cache (Add test_cache ''a'' (Bytes [1]) 0 test_heap))))
   = (Bytes [1], True)"
proof -
  let ?h = "Add test_cache ''a'' (Bytes [1]) 0 test_heap"
  let ?ms = "[MapDelete ''a'', MapAssign ''b'' \<lparr>CreatedAt = 9, Val = NilSlice\<rparr>]"
  have 1: "cache test_cache < fresh ?h"
    by (simp add: Add_def test_cache_simps test_heap_simps)
  have 2: "GetCacheMap test_cache ?h = (fresh ?h, snd (GetCacheMap test_cache ?h))"
    by (simp add: GetCacheMap_def make_map_def Let_def split: prod.splits)
  have 3: "Get test_cache ''a'' ?h = (Bytes [1], True)"
    by (simp add: Get_def Add_def)
  have "Get test_cache ''a'' (fold (mutate (fresh ?h)) ?ms (snd (GetCacheMap test_cache ?h)))
          = Get test_cache ''a'' ?h"
    using C9_GetCacheMap_independent_copy [OF 1 2, of "''a''" ?ms] by (simp only:)
  with 1 3 show ?thesis by (simp only:)
qed

end
